theory Spec2Isabelle
  imports Main "HOL-Library.Multiset" "HOL-Library.List_Lexorder" "HOL-Library.Char_ord"
begin

section \<open>Data model (src/src/github.ts, lines 7-29)\<close>

text \<open>
  \<^verbatim>\<open>MembershipType = 'member' | 'outside_collaborator' | 'none'\<close>. The constructors are
  capitalised because \<open>member\<close> is a constant of the list library.
\<close>

datatype MembershipType = Member | OutsideCollaborator | NoMembership

record SearchResult =
  owner :: string
  repo :: string
  url :: string

text \<open>
  A JavaScript \<^verbatim>\<open>Map\<close> iterates in insertion order, and \<^verbatim>\<open>set\<close> on a key that is
  present replaces the value where the key already stands. It is an association list
  whose keys are distinct; \<^verbatim>\<open>get\<close> is the lookup.
\<close>

type_synonym ('k, 'v) js_map = "('k \<times> 'v) list"

fun map_set :: "'k \<Rightarrow> 'v \<Rightarrow> ('k, 'v) js_map \<Rightarrow> ('k, 'v) js_map" where
  "map_set k v [] = [(k, v)]"
| "map_set k v ((k', v') # m) =
     (if k' = k then (k, v) # m else (k', v') # map_set k v m)"

definition map_get :: "('k, 'v) js_map \<Rightarrow> 'k \<Rightarrow> 'v option" where
  "map_get m k = map_of m k"

definition map_keys :: "('k, 'v) js_map \<Rightarrow> 'k list" where
  "map_keys m = map fst m"

text \<open>
  A JavaScript \<^verbatim>\<open>Set\<close> that is iterated (\<^verbatim>\<open>[...new Set(usernames)]\<close>) keeps the first
  occurrence of every element, in insertion order.
\<close>

fun set_add :: "'a \<Rightarrow> 'a list \<Rightarrow> 'a list" where
  "set_add x s = (if x \<in> set s then s else s @ [x])"

definition new_Set :: "'a list \<Rightarrow> 'a list" where
  "new_Set xs = fold set_add xs []"

record OrganizationInfo =
  login :: string
  outsideCollaborators :: "string set"

record UserMembership =
  username :: string
  organizations :: "(string, MembershipType) js_map"

text \<open>
  \<^verbatim>\<open>UserResult\<close>; its \<^verbatim>\<open>username\<close> field is \<open>username_r\<close> here (a record field name is
  a constant, and \<open>username\<close> is taken by \<open>UserMembership\<close>). An element
  \<^verbatim>\<open>{org, type}\<close> of \<^verbatim>\<open>memberships\<close> is a pair.
\<close>

record UserResult =
  username_r :: string
  repositories :: "SearchResult list"
  memberships :: "(string \<times> MembershipType) list"

section \<open>The remote API\<close>

text \<open>
  What a \<^verbatim>\<open>catch\<close> receives: an \<^verbatim>\<open>Error\<close> with its message, or any other thrown value.
\<close>

datatype js_error = Error string | Thrown

text \<open>
  What \<^verbatim>\<open>octokit.paginate.iterator\<close> yields to a \<^verbatim>\<open>for await\<close> loop: pages one after
  the other, each fetched when the loop asks for it, until the listing ends (\<open>Done\<close>) or
  a fetch throws (\<open>Fail\<close>).
\<close>

datatype 'a pages = Done | Page 'a "'a pages" | Fail js_error

text \<open>
  The three requests the engine makes. A page of outside collaborators is the list of
  their logins; a page of the enterprise query is \<^verbatim>\<open>response.enterprise?.organizations?.nodes\<close>,
  \<open>None\<close> when a link of that chain is missing; \<^verbatim>\<open>checkMembershipForUser\<close> resolves
  (\<open>Inr\<close>) or throws (\<open>Inl\<close>).
\<close>

record Octokit =
  listOutsideCollaborators :: "string \<Rightarrow> string list pages"
  enterpriseOrganizations :: "string \<Rightarrow> string list option pages"
  checkMembershipForUser :: "string \<Rightarrow> string \<Rightarrow> js_error + unit"

text \<open>
  \<^verbatim>\<open>String.prototype.toLowerCase\<close> on the characters a login is made of (ASCII letters,
  digits and hyphens): \<open>A\<close> to \<open>Z\<close> move to \<open>a\<close> to \<open>z\<close>, every other character stays.
\<close>

definition toLowerChar :: "char \<Rightarrow> char" where
  "toLowerChar c =
     (let n = (of_char c :: nat) in if 65 \<le> n \<and> n \<le> 90 then char_of (n + 32) else c)"

definition toLowerCase :: "string \<Rightarrow> string" where
  "toLowerCase s = map toLowerChar s"

section \<open>fetchOutsideCollaborators (github.ts, lines 31-51)\<close>

text \<open>
  The \<^verbatim>\<open>for await\<close> loop inside \<^verbatim>\<open>try\<close>: every login of a page is lower-cased and added
  to \<^verbatim>\<open>collaborators\<close>. The \<^verbatim>\<open>catch\<close> block only logs, and the function goes on to
  \<^verbatim>\<open>return collaborators\<close>, the set as the loop left it.
\<close>

fun drainCollaborators :: "string list pages \<Rightarrow> string set \<Rightarrow> string set" where
  "drainCollaborators Done collaborators = collaborators"
| "drainCollaborators (Page data rest) collaborators =
     drainCollaborators rest
       (fold (\<lambda>collaborator s. insert (toLowerCase collaborator) s) data collaborators)"
| "drainCollaborators (Fail e) collaborators = collaborators"

definition fetchOutsideCollaborators :: "Octokit \<Rightarrow> string \<Rightarrow> string set" where
  "fetchOutsideCollaborators octokit org =
     drainCollaborators (listOutsideCollaborators octokit org) {}"

section \<open>getEnterpriseOrganizations (github.ts, lines 53-119)\<close>

text \<open>The first loop: the logins of every page, a throw leaving the \<^verbatim>\<open>try\<close> block.\<close>

fun collectLogins :: "string list option pages \<Rightarrow> string list \<Rightarrow> js_error + string list" where
  "collectLogins Done orgLogins = Inr orgLogins"
| "collectLogins (Page nodes rest) orgLogins =
     collectLogins rest (orgLogins @ (case nodes of None \<Rightarrow> [] | Some ns \<Rightarrow> ns))"
| "collectLogins (Fail e) orgLogins = Inl e"

text \<open>\<^verbatim>\<open>error instanceof Error ? error.message : 'Unknown error'\<close>\<close>

fun errorMessage :: "js_error \<Rightarrow> string" where
  "errorMessage (Error message) = message"
| "errorMessage Thrown = ''Unknown error''"

text \<open>
  \<^verbatim>\<open>Promise.all\<close> returns the results in the order of \<^verbatim>\<open>orgLogins\<close>, and
  \<^verbatim>\<open>fetchOutsideCollaborators\<close> never rejects, so the second half is a \<open>map\<close>.
\<close>

definition getEnterpriseOrganizations :: "Octokit \<Rightarrow> string \<Rightarrow> js_error + OrganizationInfo list" where
  "getEnterpriseOrganizations octokit enterprise =
     (case collectLogins (enterpriseOrganizations octokit enterprise) [] of
        Inl e \<Rightarrow> Inl (Error (''Failed to fetch enterprise organizations: '' @ errorMessage e))
      | Inr orgLogins \<Rightarrow>
          Inr (map (\<lambda>l. \<lparr>login = l, outsideCollaborators = fetchOutsideCollaborators octokit l\<rparr>)
                 orgLogins))"

text \<open>The error a paginated listing ends with, if it ends with one.\<close>

fun pagesFailure :: "'a pages \<Rightarrow> js_error option" where
  "pagesFailure Done = None"
| "pagesFailure (Page p rest) = pagesFailure rest"
| "pagesFailure (Fail e) = Some e"

section \<open>checkUserMembershipInOrg (github.ts, lines 152-168)\<close>

definition checkUserMembershipInOrg :: "Octokit \<Rightarrow> OrganizationInfo \<Rightarrow> string \<Rightarrow> MembershipType" where
  "checkUserMembershipInOrg octokit org user =
     (case checkMembershipForUser octokit (login org) user of
        Inr u \<Rightarrow> Member
      | Inl e \<Rightarrow>
          if toLowerCase user \<in> outsideCollaborators org then OutsideCollaborator
          else NoMembership)"

section \<open>checkUserMemberships (github.ts, lines 170-218)\<close>

text \<open>
  The function starts one request per (user, organization) pair and writes to its maps
  in the continuations of those requests, so the order of the writes is the order in
  which the requests settle, which the network decides. A \<open>schedule\<close> is that order:
  \<open>orgOrder s u\<close> lists the positions of \<^verbatim>\<open>organizations\<close> in the order in which the
  checks of user \<open>u\<close> settle, and \<open>userOrder s\<close> lists the positions of the processed
  users in the order in which their \<^verbatim>\<open>Promise.all(orgPromises)\<close> settle. A run in which
  every request settles has a schedule that is a permutation (\<open>permutation_of\<close>).
\<close>

record schedule =
  userOrder :: "nat list"
  orgOrder :: "string \<Rightarrow> nat list"

definition settled :: "nat list \<Rightarrow> 'a list \<Rightarrow> 'a list" where
  "settled order xs = map (\<lambda>i. xs ! i) (filter (\<lambda>i. i < length xs) order)"

definition permutation_of :: "nat list \<Rightarrow> nat \<Rightarrow> bool" where
  "permutation_of order n = (sort order = [0..<n])"

text \<open>
  The \<^verbatim>\<open>for\<close> loop over \<^verbatim>\<open>uniqueUsernames\<close> with its \<^verbatim>\<open>userCache\<close>: the usernames the loop
  does not skip, in the order it meets them.
\<close>

fun processedUsernames :: "string list \<Rightarrow> string set \<Rightarrow> string list" where
  "processedUsernames [] userCache = []"
| "processedUsernames (u # us) userCache =
     (if toLowerCase u \<in> userCache then processedUsernames us userCache
      else u # processedUsernames us (insert (toLowerCase u) userCache))"

text \<open>
  The body of the loop for one username: the \<^verbatim>\<open>userMembership\<close> object once every
  callback of \<^verbatim>\<open>orgPromises\<close> has run, the callbacks running in the order \<open>order\<close>.
\<close>

definition orgCallback :: "Octokit \<Rightarrow> string \<Rightarrow> OrganizationInfo \<Rightarrow>
    (string, MembershipType) js_map \<Rightarrow> (string, MembershipType) js_map" where
  "orgCallback octokit user org m =
     (let membership = checkUserMembershipInOrg octokit org user
      in if membership \<noteq> NoMembership then map_set (login org) membership m else m)"

definition userMembershipOf :: "Octokit \<Rightarrow> OrganizationInfo list \<Rightarrow> nat list \<Rightarrow> string \<Rightarrow> UserMembership" where
  "userMembershipOf octokit orgs order user =
     \<lparr>username = user,
      organizations = fold (orgCallback octokit user) (settled order orgs) []\<rparr>"

definition checkUserMemberships :: "Octokit \<Rightarrow> schedule \<Rightarrow> OrganizationInfo list \<Rightarrow> string list \<Rightarrow>
    (string, UserMembership) js_map" where
  "checkUserMemberships octokit sched orgs usernames =
     (let uniqueUsernames = new_Set usernames;
          units = map (\<lambda>u. userMembershipOf octokit orgs (orgOrder sched u) u)
                    (processedUsernames uniqueUsernames {})
      in fold (\<lambda>um userMemberships. map_set (username um) um userMemberships)
           (settled (userOrder sched) units) [])"

section \<open>aggregateResults (github.ts, lines 220-261)\<close>

text \<open>The first loop: \<^verbatim>\<open>userRepos\<close>, the repositories grouped by their raw owner string.\<close>

definition groupStep :: "SearchResult \<Rightarrow> (string, SearchResult list) js_map \<Rightarrow>
    (string, SearchResult list) js_map" where
  "groupStep r userRepos =
     (let existing = (case map_get userRepos (owner r) of None \<Rightarrow> [] | Some e \<Rightarrow> e)
      in map_set (owner r) (existing @ [r]) userRepos)"

definition groupByOwner :: "SearchResult list \<Rightarrow> (string, SearchResult list) js_map" where
  "groupByOwner repos = fold groupStep repos []"

text \<open>The second loop: one result per entry of \<^verbatim>\<open>userRepos\<close>, in its order.\<close>

definition membershipList :: "(string, UserMembership) js_map \<Rightarrow> string \<Rightarrow> (string \<times> MembershipType) list" where
  "membershipList mems user =
     (case map_get mems user of None \<Rightarrow> [] | Some membership \<Rightarrow> organizations membership)"

definition buildResults :: "(string, SearchResult list) js_map \<Rightarrow> (string, UserMembership) js_map \<Rightarrow>
    UserResult list" where
  "buildResults userRepos mems =
     map (\<lambda>(user, repos).
            \<lparr>username_r = user, repositories = repos, memberships = membershipList mems user\<rparr>)
       userRepos"

text \<open>
  The comparator given to \<^verbatim>\<open>results.sort\<close>. \<^verbatim>\<open>localeCompare\<close> depends on the locale of
  the runtime and is a parameter \<open>lc\<close>: negative, zero or positive.
\<close>

definition compareResults :: "(string \<Rightarrow> string \<Rightarrow> int) \<Rightarrow> UserResult \<Rightarrow> UserResult \<Rightarrow> int" where
  "compareResults lc a b =
     (if length (memberships b) \<noteq> length (memberships a)
      then int (length (memberships b)) - int (length (memberships a))
      else lc (username_r a) (username_r b))"

text \<open>
  \<^verbatim>\<open>Array.prototype.sort\<close> is stable, and with a consistent comparator its result is
  the one stable ordering of the array; insertion from the right computes it.
\<close>

fun insort_by :: "('a \<Rightarrow> 'a \<Rightarrow> int) \<Rightarrow> 'a \<Rightarrow> 'a list \<Rightarrow> 'a list" where
  "insort_by cmp x [] = [x]"
| "insort_by cmp x (y # ys) =
     (if cmp x y \<le> 0 then x # y # ys else y # insort_by cmp x ys)"

definition array_sort :: "('a \<Rightarrow> 'a \<Rightarrow> int) \<Rightarrow> 'a list \<Rightarrow> 'a list" where
  "array_sort cmp xs = foldr (insort_by cmp) xs []"

definition aggregateResults :: "(string \<Rightarrow> string \<Rightarrow> int) \<Rightarrow> SearchResult list \<Rightarrow>
    (string, UserMembership) js_map \<Rightarrow> UserResult list" where
  "aggregateResults lc repos mems =
     array_sort (compareResults lc) (buildResults (groupByOwner repos) mems)"

section \<open>aggregateResults with its arrays on the heap (github.ts, lines 220-261)\<close>

text \<open>
  The objects \<^verbatim>\<open>aggregateResults\<close> receives and creates, and what it reads from the
  runtime. \<open>arrays\<close> holds every \<^verbatim>\<open>SearchResult[]\<close> object by its address: the argument
  \<^verbatim>\<open>repositories\<close> and each array \<^verbatim>\<open>existing\<close> the first loop creates with \<^verbatim>\<open>?? []\<close>.
  \<open>maps\<close> holds every \<^verbatim>\<open>Map<string, UserMembership>\<close> object, the argument
  \<^verbatim>\<open>memberships\<close> among them. Addresses below \<open>allocated\<close> are in use, and a new object
  takes the address \<open>allocated\<close>. \<open>defaultLocale\<close> is the locale of the process, which
  \<^verbatim>\<open>localeCompare\<close> reads when it is called without a locale.
\<close>

record runtime =
  arrays :: "nat \<Rightarrow> SearchResult list"
  maps :: "nat \<Rightarrow> (string, UserMembership) js_map"
  allocated :: nat
  defaultLocale :: string

text \<open>
  A \<^verbatim>\<open>UserResult\<close> object as the function builds it: its \<^verbatim>\<open>repositories\<close> field is the
  array of \<^verbatim>\<open>userRepos\<close> itself (a reference), its \<^verbatim>\<open>memberships\<close> field the array
  \<^verbatim>\<open>membershipList\<close>, which is filled before it is stored and not touched after.
\<close>

record UserResult_h =
  username_h :: string
  repositories_h :: nat
  memberships_h :: "(string \<times> MembershipType) list"

text \<open>
  The body of the first loop, lines 228-230: \<^verbatim>\<open>userRepos.get(repo.owner) ?? []\<close> is the
  array the map holds for the owner or a new empty array, \<^verbatim>\<open>existing.push(repo)\<close> writes
  to that array where it lies, and \<^verbatim>\<open>userRepos.set\<close> stores the reference.
\<close>

definition groupStep_h :: "SearchResult \<Rightarrow> (string, nat) js_map \<times> runtime \<Rightarrow>
    (string, nat) js_map \<times> runtime" where
  "groupStep_h r s =
     (let userRepos = fst s; st = snd s in
      case map_get userRepos (owner r) of
        None \<Rightarrow>
          (let existing = allocated st
           in (map_set (owner r) existing userRepos,
               st\<lparr>arrays := (arrays st)(existing := [] @ [r]), allocated := Suc existing\<rparr>))
      | Some existing \<Rightarrow>
          (map_set (owner r) existing userRepos,
           st\<lparr>arrays := (arrays st)(existing := arrays st existing @ [r])\<rparr>))"

text \<open>
  \<^verbatim>\<open>for (const repo of repositories)\<close>: the iterator of an array reads its length and its
  next element from the array at every step, so a loop whose body wrote to the array
  it iterates would see what it wrote, and might never end.
\<close>

partial_function (option) groupLoop :: "nat \<Rightarrow> nat \<Rightarrow> (string, nat) js_map \<times> runtime \<Rightarrow>
    ((string, nat) js_map \<times> runtime) option" where
  "groupLoop input i s =
     (if i < length (arrays (snd s) input)
      then groupLoop input (Suc i) (groupStep_h (arrays (snd s) input ! i) s)
      else Some s)"

declare groupLoop.simps [code]

text \<open>The second loop and the sort, on the references.\<close>

definition buildResults_h :: "(string, nat) js_map \<Rightarrow> (string, UserMembership) js_map \<Rightarrow>
    UserResult_h list" where
  "buildResults_h userRepos mems =
     map (\<lambda>(user, repos).
            \<lparr>username_h = user, repositories_h = repos,
             memberships_h = membershipList mems user\<rparr>)
       userRepos"

definition compareResults_h :: "(string \<Rightarrow> string \<Rightarrow> int) \<Rightarrow> UserResult_h \<Rightarrow> UserResult_h \<Rightarrow> int" where
  "compareResults_h lc a b =
     (if length (memberships_h b) \<noteq> length (memberships_h a)
      then int (length (memberships_h b)) - int (length (memberships_h a))
      else lc (username_h a) (username_h b))"

definition aggregateResults_run :: "(string \<Rightarrow> string \<Rightarrow> string \<Rightarrow> int) \<Rightarrow> runtime \<Rightarrow> nat \<Rightarrow> nat \<Rightarrow>
    (UserResult_h list \<times> runtime) option" where
  "aggregateResults_run collation st input mems =
     (case groupLoop input 0 ([], st) of
        None \<Rightarrow> None
      | Some s \<Rightarrow>
          Some (array_sort (compareResults_h (collation (defaultLocale (snd s))))
                  (buildResults_h (fst s) (maps (snd s) mems)),
                snd s))"

text \<open>What a reader of a result finds in it, in a given state of the heap.\<close>

definition resultValue :: "runtime \<Rightarrow> UserResult_h \<Rightarrow> UserResult" where
  "resultValue st r =
     \<lparr>username_r = username_h r, repositories = arrays st (repositories_h r),
      memberships = memberships_h r\<rparr>"

section \<open>escapeCSV (src/src/output.ts, lines 105-111)\<close>

definition dquote :: char where
  "dquote = CHR 0x22"

definition newline :: char where
  "newline = CHR 0x0A"

definition comma :: char where
  "comma = CHR 0x2C"

text \<open>\<^verbatim>\<open>value.replace(/"/g, '""')\<close>\<close>

fun doubleQuotes :: "string \<Rightarrow> string" where
  "doubleQuotes [] = []"
| "doubleQuotes (c # cs) =
     (if c = dquote then dquote # dquote # doubleQuotes cs else c # doubleQuotes cs)"

definition escapeCSV :: "string \<Rightarrow> string" where
  "escapeCSV v =
     (if comma \<in> set v \<or> newline \<in> set v \<or> dquote \<in> set v
      then dquote # doubleQuotes v @ [dquote]
      else v)"

text \<open>
  Reading a CSV field back, as the usual CSV readers do: a field that stands between
  double quotes loses them and every doubled quote inside it becomes one quote; any
  other field is taken as it is. This is the reference the round trip of \<open>escapeCSV\<close> is
  measured against, not code of the repository.
\<close>

fun collapseQuotes :: "string \<Rightarrow> string" where
  "collapseQuotes (a # b # cs) =
     (if a = dquote \<and> b = dquote then dquote # collapseQuotes cs
      else a # collapseQuotes (b # cs))"
| "collapseQuotes cs = cs"

definition unescapeCSV :: "string \<Rightarrow> string" where
  "unescapeCSV f =
     (if 2 \<le> length f \<and> hd f = dquote \<and> last f = dquote
      then collapseQuotes (butlast (tl f))
      else f)"

section \<open>An example environment\<close>

text \<open>
  A small remote state on which the theorems below are run: \<open>alice\<close> is a member of
  every organization and nobody else is; the listing of \<open>acme\<close>'s outside collaborators
  yields one page and then fails, the listing of \<open>globex\<close>'s succeeds; the enterprise
  \<open>initech\<close> lists two organizations, the listing of \<open>hooli\<close> throws a value that is
  not an \<^verbatim>\<open>Error\<close> after its first page, and the listing of any other enterprise fails
  with an \<^verbatim>\<open>Error\<close> after its first page.
\<close>

definition example_members :: "string \<Rightarrow> string \<Rightarrow> js_error + unit" where
  "example_members org user =
     (if user = ''alice'' then Inr () else Inl (Error ''Not Found''))"

definition example_collaborators :: "string \<Rightarrow> string list pages" where
  "example_collaborators org =
     (if org = ''acme'' then Page [''Bob''] (Fail (Error ''rate limit exceeded''))
      else if org = ''globex'' then Page [''Mallory''] Done
      else Fail (Error ''Not Found''))"

definition example_enterprises :: "string \<Rightarrow> string list option pages" where
  "example_enterprises enterprise =
     (if enterprise = ''initech'' then Page (Some [''acme'', ''globex'']) Done
      else if enterprise = ''hooli'' then Page (Some [''acme'']) (Fail Thrown)
      else Page (Some [''acme'']) (Fail (Error ''Bad credentials'')))"

definition example_octokit :: Octokit where
  "example_octokit =
     \<lparr>listOutsideCollaborators = example_collaborators,
      enterpriseOrganizations = example_enterprises,
      checkMembershipForUser = example_members\<rparr>"

definition acme :: OrganizationInfo where
  "acme = \<lparr>login = ''acme'', outsideCollaborators = {''bob''}\<rparr>"

definition globex :: OrganizationInfo where
  "globex = \<lparr>login = ''globex'', outsideCollaborators = {''mallory''}\<rparr>"

text \<open>
  Two schedules for two users and two organizations: in the first every later request
  settles before the earlier one, in the second the requests settle in the order in
  which they were started.
\<close>

definition example_orgOrder :: "string \<Rightarrow> nat list" where
  "example_orgOrder user = [1, 0]"

definition example_schedule :: schedule where
  "example_schedule = \<lparr>userOrder = [1, 0], orgOrder = example_orgOrder\<rparr>"

definition in_order :: "string \<Rightarrow> nat list" where
  "in_order user = [0, 1]"

definition example_schedule_in_order :: schedule where
  "example_schedule_in_order = \<lparr>userOrder = [0, 1], orgOrder = in_order\<rparr>"

text \<open>
  Inputs of \<open>aggregateResults\<close>: a comparator standing for \<^verbatim>\<open>localeCompare\<close> (the order
  of the code units, which is the order of a locale on lower-case ASCII letters), four
  repositories of three owners, a fifth whose owner differs from \<open>mallory\<close> in case
  only, and a membership map.
\<close>

definition example_localeCompare :: "string \<Rightarrow> string \<Rightarrow> int" where
  "example_localeCompare x y = (if x < y then - 1 else if x = y then 0 else 1)"

definition example_repositories :: "SearchResult list" where
  "example_repositories =
     [\<lparr>owner = ''mallory'', repo = ''x'', url = ''u1''\<rparr>,
      \<lparr>owner = ''bob'', repo = ''z'', url = ''u3''\<rparr>,
      \<lparr>owner = ''alice'', repo = ''w'', url = ''u4''\<rparr>,
      \<lparr>owner = ''mallory'', repo = ''y'', url = ''u2''\<rparr>]"

definition example_memberships :: "(string, UserMembership) js_map" where
  "example_memberships =
     [(''mallory'', \<lparr>username = ''mallory'',
                     organizations = [(''acme'', OutsideCollaborator), (''globex'', Member)]\<rparr>),
      (''alice'', \<lparr>username = ''alice'',
                   organizations = [(''globex'', Member), (''acme'', Member)]\<rparr>)]"

definition example_repositories_two_casings :: "SearchResult list" where
  "example_repositories_two_casings =
     example_repositories @ [\<lparr>owner = ''Mallory'', repo = ''v'', url = ''u5''\<rparr>]"

text \<open>
  A runtime with the example repositories at address 0, the example membership map at
  address 1, two addresses in use, and a collation that is the example comparator in
  every locale.
\<close>

definition example_collation :: "string \<Rightarrow> string \<Rightarrow> string \<Rightarrow> int" where
  "example_collation l = example_localeCompare"

definition example_runtime :: runtime where
  "example_runtime =
     \<lparr>arrays = (\<lambda>a. [])(0 := example_repositories),
      maps = (\<lambda>a. [])(1 := example_memberships),
      allocated = 2, defaultLocale = ''en-US''\<rparr>"

section \<open>The membership check of one user in one organization\<close>

text \<open>
  Claim C1. Whenever the direct membership request resolves, \<open>checkUserMembershipInOrg\<close>
  returns \<open>member\<close>, whatever the organization's set of outside collaborators holds.
\<close>

theorem direct_membership_wins:
  "checkMembershipForUser octokit (login org) user = Inr u \<Longrightarrow>
   checkUserMembershipInOrg octokit org user = Member"
  by (simp add: checkUserMembershipInOrg_def)

theorem direct_membership_wins_witness:
  "checkMembershipForUser example_octokit (login acme) ''alice'' = Inr () \<and>
   checkUserMembershipInOrg example_octokit acme ''alice'' = Member \<and>
   checkUserMembershipInOrg example_octokit
     (acme\<lparr>outsideCollaborators := {''alice''}\<rparr>) ''alice'' = Member"
proof -
  have h: "checkMembershipForUser example_octokit (login acme) ''alice'' = Inr ()"
    by (simp add: example_octokit_def example_members_def)
  have h': "checkMembershipForUser example_octokit
      (login (acme\<lparr>outsideCollaborators := {''alice''}\<rparr>)) ''alice'' = Inr ()"
    by (simp add: example_octokit_def example_members_def)
  show ?thesis
    using h direct_membership_wins [OF h] direct_membership_wins [OF h'] by simp
qed

text \<open>
  Claim C2. Whenever the direct membership request throws, with whatever error, the
  result is \<open>outside_collaborator\<close> if the lower-cased username is in the organization's
  set of outside collaborators, and \<open>none\<close> if it is not.
\<close>

theorem failed_check_falls_back_to_cache:
  "checkMembershipForUser octokit (login org) user = Inl e \<Longrightarrow>
   checkUserMembershipInOrg octokit org user =
     (if toLowerCase user \<in> outsideCollaborators org then OutsideCollaborator
      else NoMembership)"
  by (simp add: checkUserMembershipInOrg_def)

theorem failed_check_falls_back_to_cache_witness:
  "checkMembershipForUser example_octokit (login acme) ''Bob'' = Inl (Error ''Not Found'') \<and>
   checkUserMembershipInOrg example_octokit acme ''Bob'' = OutsideCollaborator \<and>
   checkMembershipForUser example_octokit (login globex) ''Bob'' = Inl (Error ''Not Found'') \<and>
   checkUserMembershipInOrg example_octokit globex ''Bob'' = NoMembership"
proof -
  have h1: "checkMembershipForUser example_octokit (login acme) ''Bob'' = Inl (Error ''Not Found'')"
    by (simp add: example_octokit_def example_members_def)
  have h2: "checkMembershipForUser example_octokit (login globex) ''Bob'' = Inl (Error ''Not Found'')"
    by (simp add: example_octokit_def example_members_def)
  have l: "toLowerCase ''Bob'' = ''bob''"
    by code_simp
  show ?thesis
    using h1 h2 failed_check_falls_back_to_cache [OF h1] failed_check_falls_back_to_cache [OF h2]
    by (simp add: l acme_def globex_def)
qed

section \<open>Listing failures\<close>

text \<open>
  Claim C3, at the input where the code departs from it. The listing of \<open>acme\<close>'s
  outside collaborators yields a first page holding \<open>Bob\<close> and fails on the second
  fetch. \<open>fetchOutsideCollaborators\<close> does not propagate the error, but it returns the
  set filled so far, \<open>{bob}\<close>, not the empty set; \<open>bob\<close>, whose direct membership
  check fails, then resolves to \<open>outside_collaborator\<close>, not to \<open>none\<close>.
\<close>

theorem failed_listing_keeps_fetched_pages:
  "pagesFailure (listOutsideCollaborators example_octokit ''acme'')
     = Some (Error ''rate limit exceeded'') \<and>
   fetchOutsideCollaborators example_octokit ''acme'' = {''bob''} \<and>
   checkMembershipForUser example_octokit ''acme'' ''bob'' = Inl (Error ''Not Found'') \<and>
   checkUserMembershipInOrg example_octokit
     \<lparr>login = ''acme'',
      outsideCollaborators = fetchOutsideCollaborators example_octokit ''acme''\<rparr>
     ''bob'' = OutsideCollaborator"
proof -
  have l: "toLowerCase ''Bob'' = ''bob''" "toLowerCase ''bob'' = ''bob''"
    by code_simp+
  show ?thesis
    by (simp add: example_octokit_def example_collaborators_def example_members_def
        fetchOutsideCollaborators_def checkUserMembershipInOrg_def l)
qed

lemma collectLogins_failure:
  "pagesFailure ps = Some e \<Longrightarrow> collectLogins ps acc = Inl e"
  by (induction ps arbitrary: acc) auto

text \<open>
  Claim C8. If the listing of the enterprise's organizations fails, at whichever page,
  \<open>getEnterpriseOrganizations\<close> throws: its result is an error, never a list of
  organizations. When the failure is an \<^verbatim>\<open>Error\<close> with message \<open>m\<close>, the message of the
  error thrown is \<open>Failed to fetch enterprise organizations: \<close> followed by \<open>m\<close> itself;
  when what was thrown is not an \<^verbatim>\<open>Error\<close> and so has no message, it is followed by
  \<open>Unknown error\<close>.
\<close>

theorem enumeration_failure_is_fatal:
  "(pagesFailure (enterpriseOrganizations octokit enterprise) = Some (Error m) \<longrightarrow>
      getEnterpriseOrganizations octokit enterprise =
        Inl (Error (''Failed to fetch enterprise organizations: '' @ m))) \<and>
   (pagesFailure (enterpriseOrganizations octokit enterprise) = Some Thrown \<longrightarrow>
      getEnterpriseOrganizations octokit enterprise =
        Inl (Error ''Failed to fetch enterprise organizations: Unknown error''))"
  by (simp add: getEnterpriseOrganizations_def collectLogins_failure)

theorem enumeration_failure_is_fatal_witness:
  "pagesFailure (enterpriseOrganizations example_octokit ''umbrella'')
     = Some (Error ''Bad credentials'') \<and>
   getEnterpriseOrganizations example_octokit ''umbrella'' =
     Inl (Error ''Failed to fetch enterprise organizations: Bad credentials'') \<and>
   pagesFailure (enterpriseOrganizations example_octokit ''hooli'') = Some Thrown \<and>
   getEnterpriseOrganizations example_octokit ''hooli'' =
     Inl (Error ''Failed to fetch enterprise organizations: Unknown error'')"
proof -
  have h: "pagesFailure (enterpriseOrganizations example_octokit ''umbrella'')
      = Some (Error ''Bad credentials'')"
    by (simp add: example_octokit_def example_enterprises_def)
  have h': "pagesFailure (enterpriseOrganizations example_octokit ''hooli'') = Some Thrown"
    by (simp add: example_octokit_def example_enterprises_def)
  from h have r: "getEnterpriseOrganizations example_octokit ''umbrella'' =
     Inl (Error (''Failed to fetch enterprise organizations: '' @ ''Bad credentials''))"
    by (rule mp [OF conjunct1 [OF enumeration_failure_is_fatal], rotated])
  from h' have r': "getEnterpriseOrganizations example_octokit ''hooli'' =
     Inl (Error ''Failed to fetch enterprise organizations: Unknown error'')"
    by (rule mp [OF conjunct2 [OF enumeration_failure_is_fatal], rotated])
  from h r h' r' show ?thesis
    by simp
qed

section \<open>Maps, sets and schedules\<close>

lemma keys_map_set: "map fst (map_set k v m) = set_add k (map fst m)"
  by (induction m) (auto simp: rev_image_eqI)

lemma map_of_map_set: "map_of (map_set k v m) = (map_of m)(k \<mapsto> v)"
  by (induction m) (auto simp: fun_eq_iff)

lemma set_map_set: "e \<in> set (map_set k v m) \<Longrightarrow> e = (k, v) \<or> e \<in> set m"
  by (induction m) (auto split: if_splits)

lemma keys_fold_map_set:
  "map fst (fold (\<lambda>x m. map_set (f x) (g x) m) xs m0) = fold set_add (map f xs) (map fst m0)"
  by (induction xs arbitrary: m0) (simp_all add: keys_map_set del: set_add.simps)

lemma entries_fold_map_set:
  "e \<in> set (fold (\<lambda>x m. map_set (f x) (g x) m) xs m0) \<Longrightarrow>
   e \<in> set m0 \<or> (\<exists>x \<in> set xs. e = (f x, g x))"
proof (induction xs arbitrary: m0)
  case Nil
  then show ?case by simp
next
  case (Cons x xs)
  from Cons.IH [of "map_set (f x) (g x) m0"] Cons.prems
  show ?case by (auto dest: set_map_set)
qed

lemma set_fold_set_add: "set (fold set_add xs acc) = set acc \<union> set xs"
  by (induction xs arbitrary: acc) auto

lemma distinct_fold_set_add: "distinct acc \<Longrightarrow> distinct (fold set_add xs acc)"
  by (induction xs arbitrary: acc) auto

lemma set_new_Set: "set (new_Set xs) = set xs"
  by (simp add: new_Set_def set_fold_set_add)

lemma distinct_new_Set: "distinct (new_Set xs)"
  by (simp add: new_Set_def distinct_fold_set_add)

lemma find_append_cases:
  "find P (xs @ ys) = (case find P xs of Some a \<Rightarrow> Some a | None \<Rightarrow> find P ys)"
  by (induction xs) auto

lemma find_fold_set_add:
  "find P (fold set_add xs acc) = (case find P acc of Some a \<Rightarrow> Some a | None \<Rightarrow> find P xs)"
proof (induction xs arbitrary: acc)
  case Nil
  show ?case by (simp split: option.splits)
next
  case (Cons x xs)
  show ?case
  proof (cases "x \<in> set acc")
    case True
    then have "find P acc = None \<Longrightarrow> \<not> P x"
      by (auto simp: find_None_iff)
    with True Cons.IH [of acc] show ?thesis
      by (auto split: option.splits)
  next
    case False
    with Cons.IH [of "acc @ [x]"] show ?thesis
      by (auto simp: find_append_cases split: option.splits)
  qed
qed

lemma find_new_Set: "find P (new_Set xs) = find P xs"
  by (simp add: new_Set_def find_fold_set_add)

lemma set_settled: "set (settled order xs) \<subseteq> set xs"
  by (auto simp: settled_def)

lemma settled_map: "settled order (map f xs) = map f (settled order xs)"
  by (simp add: settled_def)

lemma settled_in_order: "settled [0..<length xs] xs = xs"
  by (simp add: settled_def map_nth)

lemma mset_settled:
  assumes "permutation_of order (length xs)"
  shows "mset (settled order xs) = mset xs"
proof -
  from assms have "mset order = mset [0..<length xs]"
    unfolding permutation_of_def by (metis mset_sort)
  then have s: "set order = {0..<length xs}"
    by (metis set_mset_mset set_upt atLeastLessThan_upt)
  then have "filter (\<lambda>i. i < length xs) order = order"
    by (auto simp: filter_id_conv)
  then have "mset (settled order xs) = image_mset (\<lambda>i. xs ! i) (mset order)"
    by (simp add: settled_def)
  also have "\<dots> = image_mset (\<lambda>i. xs ! i) (mset [0..<length xs])"
    using \<open>mset order = mset [0..<length xs]\<close> by simp
  also have "\<dots> = mset (map (\<lambda>i. xs ! i) [0..<length xs])"
    by simp
  also have "\<dots> = mset xs"
    by (simp add: map_nth)
  finally show ?thesis .
qed

lemma set_settled_permutation:
  "permutation_of order (length xs) \<Longrightarrow> set (settled order xs) = set xs"
  by (metis mset_settled set_mset_mset)

section \<open>checkUserMemberships\<close>

lemma processedUsernames_sound:
  "k \<in> set (processedUsernames us cache) \<Longrightarrow>
   toLowerCase k \<notin> cache \<and> find (\<lambda>v. toLowerCase v = toLowerCase k) us = Some k"
proof (induction us arbitrary: cache)
  case Nil
  then show ?case by simp
next
  case (Cons u us)
  show ?case
  proof (cases "toLowerCase u \<in> cache")
    case True
    with Cons.prems have "k \<in> set (processedUsernames us cache)" by simp
    from Cons.IH [OF this] True show ?thesis by auto
  next
    case False
    show ?thesis
    proof (cases "k = u")
      case True
      with False show ?thesis by simp
    next
      case ne: False
      with False Cons.prems
      have "k \<in> set (processedUsernames us (insert (toLowerCase u) cache))" by simp
      from Cons.IH [OF this] show ?thesis by auto
    qed
  qed
qed

lemma processedUsernames_distinct:
  "distinct (map toLowerCase (processedUsernames us cache))"
proof (induction us arbitrary: cache)
  case Nil
  show ?case by simp
next
  case (Cons u us)
  have "toLowerCase u \<notin> toLowerCase ` set (processedUsernames us (insert (toLowerCase u) cache))"
    using processedUsernames_sound [of _ us "insert (toLowerCase u) cache"] by fastforce
  with Cons.IH show ?case by simp
qed

lemma processedUsernames_complete:
  "toLowerCase ` set (processedUsernames us cache) = toLowerCase ` set us - cache"
proof (induction us arbitrary: cache)
  case Nil
  show ?case by simp
next
  case (Cons u us)
  show ?case using Cons.IH by auto
qed

lemma fold_orgCallback:
  "fold (orgCallback octokit user) xs m =
   fold (\<lambda>org m. map_set (login org) (checkUserMembershipInOrg octokit org user) m)
     (filter (\<lambda>org. checkUserMembershipInOrg octokit org user \<noteq> NoMembership) xs) m"
  by (induction xs arbitrary: m) (simp_all add: orgCallback_def)

lemma keys_userMembershipOf:
  "map_keys (organizations (userMembershipOf octokit orgs order user)) =
   new_Set (map login
     (filter (\<lambda>org. checkUserMembershipInOrg octokit org user \<noteq> NoMembership)
        (settled order orgs)))"
  by (simp add: userMembershipOf_def map_keys_def fold_orgCallback keys_fold_map_set new_Set_def)

lemma values_userMembershipOf:
  assumes "(l, t) \<in> set (organizations (userMembershipOf octokit orgs order user))"
  shows "t = Member \<or> t = OutsideCollaborator"
proof -
  from assms have
    "(l, t) \<in> set (fold (\<lambda>org m. map_set (login org) (checkUserMembershipInOrg octokit org user) m)
       (filter (\<lambda>org. checkUserMembershipInOrg octokit org user \<noteq> NoMembership)
          (settled order orgs)) [])"
    by (simp add: userMembershipOf_def fold_orgCallback)
  then have "t \<noteq> NoMembership"
    by (auto dest!: entries_fold_map_set)
  then show ?thesis by (cases t) simp_all
qed

lemma entries_fold_by_username:
  assumes "(k, um) \<in> set (fold (\<lambda>um m. map_set (username um) um m) xs [])"
  shows "um \<in> set xs \<and> k = username um"
  using entries_fold_map_set [where f = username and g = "\<lambda>x. x", OF assms]
  by auto

lemma checkUserMemberships_entry:
  assumes "(k, um) \<in> set (checkUserMemberships octokit sched orgs usernames)"
  shows "k \<in> set (processedUsernames (new_Set usernames) {}) \<and>
         um = userMembershipOf octokit orgs (orgOrder sched k) k"
proof -
  let ?W = "processedUsernames (new_Set usernames) {}"
  let ?units = "map (\<lambda>u. userMembershipOf octokit orgs (orgOrder sched u) u) ?W"
  from assms have "(k, um) \<in> set (fold (\<lambda>um m. map_set (username um) um m)
      (settled (userOrder sched) ?units) [])"
    by (simp add: checkUserMemberships_def)
  then have x: "um \<in> set (settled (userOrder sched) ?units)" and k: "k = username um"
    by (simp_all add: entries_fold_by_username)
  from x have "um \<in> set ?units"
    by (rule subsetD [OF set_settled])
  then have "um \<in> (\<lambda>u. userMembershipOf octokit orgs (orgOrder sched u) u) ` set ?W"
    by simp
  then obtain u where u: "u \<in> set ?W"
    and xu: "um = userMembershipOf octokit orgs (orgOrder sched u) u"
    by (rule imageE)
  from xu have "username um = u"
    by (simp add: userMembershipOf_def)
  with k have "k = u"
    by simp
  with u xu show ?thesis
    by simp
qed

lemma checkUserMemberships_keys:
  "map_keys (checkUserMemberships octokit sched orgs usernames) =
   new_Set (settled (userOrder sched) (processedUsernames (new_Set usernames) {}))"
proof -
  let ?W = "processedUsernames (new_Set usernames) {}"
  let ?units = "map (\<lambda>u. userMembershipOf octokit orgs (orgOrder sched u) u) ?W"
  have "map username (map (\<lambda>u. userMembershipOf octokit orgs (orgOrder sched u) u) us) = us" for us
    by (induction us) (simp_all add: userMembershipOf_def)
  then have "map username ?units = ?W" .
  then have "map username (settled (userOrder sched) ?units) = settled (userOrder sched) ?W"
    by (metis settled_map)
  moreover have "map_keys (checkUserMemberships octokit sched orgs usernames)
      = fold set_add (map username (settled (userOrder sched) ?units)) []"
    using keys_fold_map_set [where f = username and g = "\<lambda>x. x" and ?m0.0 = "[]"]
    by (simp add: checkUserMemberships_def map_keys_def)
  ultimately show ?thesis
    by (simp add: new_Set_def)
qed

text \<open>
  Claim C4. Whatever the schedule, every entry of the map returned by
  \<open>checkUserMemberships\<close> has a key that occurs in the input list, the key is the
  entry's \<open>username\<close>, and it is the first element of the input with its lower-cased
  form (the first-seen casing); no two keys have the same lower-cased form. When every
  user's requests settle, every input username is represented by an entry.
\<close>

theorem checkUserMemberships_one_entry_per_user:
  "(\<forall>(k, um) \<in> set (checkUserMemberships octokit sched orgs usernames).
      k \<in> set usernames \<and> username um = k \<and>
      find (\<lambda>v. toLowerCase v = toLowerCase k) usernames = Some k) \<and>
   distinct (map toLowerCase (map_keys (checkUserMemberships octokit sched orgs usernames))) \<and>
   (permutation_of (userOrder sched) (length (processedUsernames (new_Set usernames) {})) \<longrightarrow>
      toLowerCase ` set (map_keys (checkUserMemberships octokit sched orgs usernames))
        = toLowerCase ` set usernames)"
proof (intro conjI impI)
  let ?W = "processedUsernames (new_Set usernames) {}"
  show "\<forall>(k, um) \<in> set (checkUserMemberships octokit sched orgs usernames).
      k \<in> set usernames \<and> username um = k \<and>
      find (\<lambda>v. toLowerCase v = toLowerCase k) usernames = Some k"
  proof (clarify, intro conjI)
    fix k um
    assume "(k, um) \<in> set (checkUserMemberships octokit sched orgs usernames)"
    then have k: "k \<in> set ?W" and um: "um = userMembershipOf octokit orgs (orgOrder sched k) k"
      using checkUserMemberships_entry by blast+
    from processedUsernames_sound [OF k]
    show f: "find (\<lambda>v. toLowerCase v = toLowerCase k) usernames = Some k"
      by (simp add: find_new_Set)
    then show "k \<in> set usernames"
      by (auto simp: find_Some_iff)
    from um show "username um = k"
      by (simp add: userMembershipOf_def)
  qed
  have keys: "set (map_keys (checkUserMemberships octokit sched orgs usernames)) \<subseteq> set ?W"
    using set_settled [of "userOrder sched" ?W]
    by (simp add: checkUserMemberships_keys set_new_Set)
  have "inj_on toLowerCase (set ?W)"
    using processedUsernames_distinct [of "new_Set usernames" "{}"] by (simp add: distinct_map)
  with keys have "inj_on toLowerCase (set (map_keys (checkUserMemberships octokit sched orgs usernames)))"
    by (rule inj_on_subset [rotated])
  then show "distinct (map toLowerCase (map_keys (checkUserMemberships octokit sched orgs usernames)))"
    by (simp add: distinct_map checkUserMemberships_keys distinct_new_Set)
  assume "permutation_of (userOrder sched) (length ?W)"
  then have "set (map_keys (checkUserMemberships octokit sched orgs usernames)) = set ?W"
    by (simp add: checkUserMemberships_keys set_new_Set set_settled_permutation)
  then show "toLowerCase ` set (map_keys (checkUserMemberships octokit sched orgs usernames))
        = toLowerCase ` set usernames"
    by (simp add: processedUsernames_complete set_new_Set)
qed

theorem checkUserMemberships_one_entry_per_user_witness:
  "permutation_of (userOrder example_schedule)
     (length (processedUsernames (new_Set [''alice'', ''Bob'', ''Alice'', ''bob'', ''Bob'']) {})) \<and>
   checkUserMemberships example_octokit example_schedule [acme, globex]
      [''alice'', ''Bob'', ''Alice'', ''bob'', ''Bob'']
    = [(''Bob'', \<lparr>username = ''Bob'', organizations = [(''acme'', OutsideCollaborator)]\<rparr>),
       (''alice'', \<lparr>username = ''alice'',
                    organizations = [(''globex'', Member), (''acme'', Member)]\<rparr>)] \<and>
   distinct (map toLowerCase (map_keys (checkUserMemberships example_octokit example_schedule
      [acme, globex] [''alice'', ''Bob'', ''Alice'', ''bob'', ''Bob'']))) \<and>
   toLowerCase ` set (map_keys (checkUserMemberships example_octokit example_schedule
      [acme, globex] [''alice'', ''Bob'', ''Alice'', ''bob'', ''Bob'']))
    = toLowerCase ` set [''alice'', ''Bob'', ''Alice'', ''bob'', ''Bob'']"
proof -
  have p: "permutation_of (userOrder example_schedule)
     (length (processedUsernames (new_Set [''alice'', ''Bob'', ''Alice'', ''bob'', ''Bob'']) {}))"
    by code_simp
  have r: "checkUserMemberships example_octokit example_schedule [acme, globex]
      [''alice'', ''Bob'', ''Alice'', ''bob'', ''Bob'']
    = [(''Bob'', \<lparr>username = ''Bob'', organizations = [(''acme'', OutsideCollaborator)]\<rparr>),
       (''alice'', \<lparr>username = ''alice'',
                    organizations = [(''globex'', Member), (''acme'', Member)]\<rparr>)]"
    by code_simp
  note t = checkUserMemberships_one_entry_per_user [of example_octokit example_schedule
      "[acme, globex]" "[''alice'', ''Bob'', ''Alice'', ''bob'', ''Bob'']"]
  from t have d: "distinct (map toLowerCase (map_keys (checkUserMemberships example_octokit
      example_schedule [acme, globex] [''alice'', ''Bob'', ''Alice'', ''bob'', ''Bob''])))"
    by (rule conjunct1 [OF conjunct2])
  from t p have c: "toLowerCase ` set (map_keys (checkUserMemberships example_octokit example_schedule
      [acme, globex] [''alice'', ''Bob'', ''Alice'', ''bob'', ''Bob'']))
    = toLowerCase ` set [''alice'', ''Bob'', ''Alice'', ''bob'', ''Bob'']"
    by (rule mp [OF conjunct2 [OF conjunct2]])
  from p r d c show ?thesis
    by (intro conjI)
qed

text \<open>
  Claim C5, as the code has it. In every entry of the result the \<open>organizations\<close> map
  holds only \<open>member\<close> and \<open>outside_collaborator\<close> values, never \<open>none\<close>. Its keys
  are the logins of the organizations whose check was not \<open>none\<close>, each once, in the
  order in which the checks of that user settled; that is the order in which the
  organizations were iterated when the checks settle in that order.
\<close>

theorem organizations_hold_settled_memberships:
  "\<forall>(k, um) \<in> set (checkUserMemberships octokit sched orgs usernames).
     (\<forall>(l, t) \<in> set (organizations um). t = Member \<or> t = OutsideCollaborator) \<and>
     map_keys (organizations um) =
       new_Set (map login
         (filter (\<lambda>org. checkUserMembershipInOrg octokit org k \<noteq> NoMembership)
            (settled (orgOrder sched k) orgs))) \<and>
     (orgOrder sched k = [0..<length orgs] \<longrightarrow>
        map_keys (organizations um) =
          new_Set (map login
            (filter (\<lambda>org. checkUserMembershipInOrg octokit org k \<noteq> NoMembership) orgs)))"
proof (clarify, intro conjI impI)
  fix k um
  assume "(k, um) \<in> set (checkUserMemberships octokit sched orgs usernames)"
  then have um: "um = userMembershipOf octokit orgs (orgOrder sched k) k"
    using checkUserMemberships_entry by blast
  show "\<forall>(l, t) \<in> set (organizations um). t = Member \<or> t = OutsideCollaborator"
    unfolding um using values_userMembershipOf by blast
  show keys: "map_keys (organizations um) =
       new_Set (map login
         (filter (\<lambda>org. checkUserMembershipInOrg octokit org k \<noteq> NoMembership)
            (settled (orgOrder sched k) orgs)))"
    unfolding um by (rule keys_userMembershipOf)
  assume "orgOrder sched k = [0..<length orgs]"
  with keys show "map_keys (organizations um) =
          new_Set (map login
            (filter (\<lambda>org. checkUserMembershipInOrg octokit org k \<noteq> NoMembership) orgs))"
    by (simp add: settled_in_order)
qed

theorem organizations_hold_settled_memberships_witness:
  "(''alice'', \<lparr>username = ''alice'', organizations = [(''globex'', Member), (''acme'', Member)]\<rparr>)
     \<in> set (checkUserMemberships example_octokit example_schedule [acme, globex] [''alice'', ''Bob'']) \<and>
   map_keys (organizations
     \<lparr>username = ''alice'', organizations = [(''globex'', Member), (''acme'', Member)]\<rparr>)
     = [''globex'', ''acme''] \<and>
   orgOrder example_schedule_in_order ''alice'' = [0..<length [acme, globex]] \<and>
   (''alice'', \<lparr>username = ''alice'', organizations = [(''acme'', Member), (''globex'', Member)]\<rparr>)
     \<in> set (checkUserMemberships example_octokit example_schedule_in_order [acme, globex]
         [''alice'', ''Bob'']) \<and>
   map_keys (organizations
     \<lparr>username = ''alice'', organizations = [(''acme'', Member), (''globex'', Member)]\<rparr>)
     = new_Set (map login [acme, globex])"
proof -
  let ?a = "\<lparr>username = ''alice'', organizations = [(''globex'', Member), (''acme'', Member)]\<rparr>"
  let ?b = "\<lparr>username = ''alice'', organizations = [(''acme'', Member), (''globex'', Member)]\<rparr>"
  have m1: "(''alice'', ?a)
     \<in> set (checkUserMemberships example_octokit example_schedule [acme, globex] [''alice'', ''Bob''])"
    by code_simp
  have m2: "(''alice'', ?b)
     \<in> set (checkUserMemberships example_octokit example_schedule_in_order [acme, globex]
         [''alice'', ''Bob''])"
    by code_simp
  have o: "orgOrder example_schedule_in_order ''alice'' = [0..<length [acme, globex]]"
    by code_simp
  have e1: "new_Set (map login
         (filter (\<lambda>org. checkUserMembershipInOrg example_octokit org ''alice'' \<noteq> NoMembership)
            (settled (orgOrder example_schedule ''alice'') [acme, globex]))) = [''globex'', ''acme'']"
    by code_simp
  have e2: "filter (\<lambda>org. checkUserMembershipInOrg example_octokit org ''alice'' \<noteq> NoMembership)
       [acme, globex] = [acme, globex]"
    by code_simp
  note b1 = bspec [OF organizations_hold_settled_memberships m1, unfolded prod.case]
  from b1 have k1: "map_keys (organizations ?a) = [''globex'', ''acme'']"
    unfolding e1 by (rule conjunct1 [OF conjunct2])
  note b2 = bspec [OF organizations_hold_settled_memberships m2, unfolded prod.case]
  from b2 o have k2: "map_keys (organizations ?b) = new_Set (map login [acme, globex])"
    unfolding e2 by (rule mp [OF conjunct2 [OF conjunct2]])
  from m1 k1 o m2 k2 show ?thesis
    by (intro conjI)
qed

text \<open>
  Claim C5 as stated fails: \<open>alice\<close> is a member of \<open>acme\<close> and \<open>globex\<close>, iterated
  in that order; when the check against \<open>globex\<close> settles first, the keys of her map
  are \<open>globex\<close>, \<open>acme\<close>.
\<close>

theorem organizations_follow_settle_order:
  "map login [acme, globex] = [''acme'', ''globex''] \<and>
   checkUserMembershipInOrg example_octokit acme ''alice'' = Member \<and>
   checkUserMembershipInOrg example_octokit globex ''alice'' = Member \<and>
   permutation_of (userOrder example_schedule) 2 \<and>
   permutation_of (orgOrder example_schedule ''alice'') 2 \<and>
   checkUserMemberships example_octokit example_schedule [acme, globex] [''alice'', ''Bob'']
    = [(''Bob'', \<lparr>username = ''Bob'', organizations = [(''acme'', OutsideCollaborator)]\<rparr>),
       (''alice'', \<lparr>username = ''alice'',
                    organizations = [(''globex'', Member), (''acme'', Member)]\<rparr>)] \<and>
   map_keys [(''globex'', Member), (''acme'', Member)] \<noteq> map login [acme, globex]"
  by code_simp

section \<open>aggregateResults\<close>

subsection \<open>Grouping\<close>

lemma keys_groupStep: "map fst (groupStep r m) = set_add (owner r) (map fst m)"
  by (simp add: groupStep_def keys_map_set del: set_add.simps)

lemma new_Set_snoc: "new_Set (xs @ [x]) = set_add x (new_Set xs)"
  by (simp add: new_Set_def del: set_add.simps)

lemma groupByOwner_snoc: "groupByOwner (rs @ [r]) = groupStep r (groupByOwner rs)"
  by (simp add: groupByOwner_def)

lemma keys_groupByOwner: "map fst (groupByOwner repos) = new_Set (map owner repos)"
proof (induction repos rule: rev_induct)
  case Nil
  show ?case by (simp add: groupByOwner_def new_Set_def)
next
  case (snoc r rs)
  then show ?case
    by (simp add: groupByOwner_snoc keys_groupStep new_Set_snoc del: set_add.simps)
qed

lemma map_of_groupByOwner:
  "map_of (groupByOwner repos) k =
     (if k \<in> owner ` set repos then Some (filter (\<lambda>r. owner r = k) repos) else None)"
proof (induction repos rule: rev_induct)
  case Nil
  show ?case by (simp add: groupByOwner_def)
next
  case (snoc r rs)
  show ?case
  proof (cases "k = owner r")
    case True
    have "filter (\<lambda>x. owner x = k) rs = []" if "k \<notin> owner ` set rs"
      using that by (auto simp: filter_empty_conv)
    with True snoc show ?thesis
      by (simp add: groupByOwner_snoc groupStep_def map_of_map_set map_get_def)
  next
    case False
    with snoc show ?thesis
      by (auto simp add: groupByOwner_snoc groupStep_def map_of_map_set)
  qed
qed

lemma distinct_keys_groupByOwner: "distinct (map fst (groupByOwner repos))"
  by (simp add: keys_groupByOwner distinct_new_Set)

lemma entry_groupByOwner:
  assumes "(k, rs) \<in> set (groupByOwner repos)"
  shows "rs = filter (\<lambda>r. owner r = k) repos"
proof -
  from assms have "map_of (groupByOwner repos) k = Some rs"
    by (simp add: distinct_keys_groupByOwner)
  then show ?thesis
    by (simp add: map_of_groupByOwner split: if_splits)
qed

subsection \<open>Sorting\<close>

lemma mset_insort_by: "mset (insort_by cmp x ys) = add_mset x (mset ys)"
  by (induction ys) simp_all

lemma mset_array_sort: "mset (array_sort cmp xs) = mset xs"
  by (induction xs) (simp_all add: array_sort_def mset_insort_by)

lemma set_insort_by: "set (insort_by cmp x ys) = insert x (set ys)"
  by (induction ys) auto

lemma sorted_insort_by:
  assumes total: "\<And>a b. cmp a b \<le> 0 \<or> cmp b a \<le> 0"
    and trans: "\<And>a b c. cmp a b \<le> 0 \<Longrightarrow> cmp b c \<le> 0 \<Longrightarrow> cmp a c \<le> 0"
    and sorted: "sorted_wrt (\<lambda>a b. cmp a b \<le> 0) ys"
  shows "sorted_wrt (\<lambda>a b. cmp a b \<le> 0) (insort_by cmp x ys)"
  using sorted
proof (induction ys)
  case Nil
  show ?case by simp
next
  case (Cons y ys)
  show ?case
  proof (cases "cmp x y \<le> 0")
    case True
    with Cons.prems trans show ?thesis by auto
  next
    case False
    with total have "cmp y x \<le> 0" by blast
    with False Cons show ?thesis
      by (auto simp: set_insort_by)
  qed
qed

lemma sorted_array_sort:
  assumes total: "\<And>a b. cmp a b \<le> 0 \<or> cmp b a \<le> 0"
    and trans: "\<And>a b c. cmp a b \<le> 0 \<Longrightarrow> cmp b c \<le> 0 \<Longrightarrow> cmp a c \<le> 0"
  shows "sorted_wrt (\<lambda>a b. cmp a b \<le> 0) (array_sort cmp xs)"
proof (induction xs)
  case Nil
  show ?case by (simp add: array_sort_def)
next
  case (Cons x xs)
  then have "sorted_wrt (\<lambda>a b. cmp a b \<le> 0) (foldr (insort_by cmp) xs [])"
    by (simp add: array_sort_def)
  from sorted_insort_by [of cmp, OF total trans this]
  show ?case by (simp add: array_sort_def)
qed

lemma compareResults_le:
  "compareResults lc a b \<le> 0 \<longleftrightarrow>
     length (memberships b) < length (memberships a) \<or>
     (length (memberships a) = length (memberships b) \<and> lc (username_r a) (username_r b) \<le> 0)"
  by (auto simp: compareResults_def)

subsection \<open>The results before and after sorting\<close>

lemma set_aggregateResults:
  "set (aggregateResults lc repos mems) = set (buildResults (groupByOwner repos) mems)"
  unfolding aggregateResults_def by (metis mset_array_sort set_mset_mset)

lemma usernames_buildResults: "map username_r (buildResults g mems) = map fst g"
  by (induction g) (auto simp: buildResults_def)

lemma mset_usernames_aggregateResults:
  "mset (map username_r (aggregateResults lc repos mems)) = mset (new_Set (map owner repos))"
proof -
  have "mset (map username_r (aggregateResults lc repos mems))
      = image_mset username_r (mset (buildResults (groupByOwner repos) mems))"
    by (simp add: aggregateResults_def mset_array_sort)
  also have "\<dots> = mset (map username_r (buildResults (groupByOwner repos) mems))"
    by simp
  finally show ?thesis
    by (simp only: usernames_buildResults keys_groupByOwner)
qed

lemma entry_aggregateResults:
  assumes "r \<in> set (aggregateResults lc repos mems)"
  shows "repositories r = filter (\<lambda>x. owner x = username_r r) repos \<and>
         memberships r = membershipList mems (username_r r) \<and>
         username_r r \<in> owner ` set repos"
proof -
  from assms obtain k rs where e: "(k, rs) \<in> set (groupByOwner repos)"
    and r: "r = \<lparr>username_r = k, repositories = rs, memberships = membershipList mems k\<rparr>"
    by (auto simp: set_aggregateResults buildResults_def)
  from e have "k \<in> set (map fst (groupByOwner repos))"
    by force
  then have "k \<in> owner ` set repos"
    by (simp add: keys_groupByOwner set_new_Set)
  with entry_groupByOwner [OF e] r show ?thesis
    by simp
qed

lemma three_sorted:
  fixes cn :: "'a \<Rightarrow> nat" and lc :: "'a \<Rightarrow> 'a \<Rightarrow> int"
  assumes d: "distinct names" and s: "set names = {a, b, c}"
    and so: "sorted_wrt (\<lambda>p q. cn q < cn p \<or> (cn p = cn q \<and> lc p q \<le> 0)) names"
    and ca: "cn a = 2" and cb: "cn b = 0" and cc: "cn c = 2" and ac: "0 < lc a c" and ne: "a \<noteq> c"
  shows "names = [c, a, b]"
proof -
  from ca cb cc have ne': "a \<noteq> b" "c \<noteq> b" by auto
  with ne have "card {a, b, c} = 3" by simp
  with d s have "length names = 3"
    by (metis distinct_card)
  then obtain x y z where n: "names = [x, y, z]"
    by (auto simp: length_Suc_conv eval_nat_numeral)
  from s n have sub: "x \<in> {a, b, c}" "y \<in> {a, b, c}" "z \<in> {a, b, c}"
    and sup: "a \<in> {x, y, z}" "b \<in> {x, y, z}" "c \<in> {x, y, z}"
    by auto
  from d n have dn: "x \<noteq> y" "x \<noteq> z" "y \<noteq> z" by auto
  from so n have r: "cn y < cn x \<or> (cn x = cn y \<and> lc x y \<le> 0)"
    "cn z < cn x \<or> (cn x = cn z \<and> lc x z \<le> 0)"
    "cn z < cn y \<or> (cn y = cn z \<and> lc y z \<le> 0)"
    by auto
  have z: "z = b"
    using sub sup dn r ca cb cc by auto
  have x: "x = c"
    using z sub sup dn r ca cb cc ac by auto
  have y: "y = a"
    using x z sub sup dn by auto
  from n x y z show ?thesis by simp
qed

lemma distinct_usernames_aggregateResults:
  "distinct (map username_r (aggregateResults lc repos mems))"
  using mset_usernames_aggregateResults [of lc repos mems] distinct_new_Set [of "map owner repos"]
  by (metis mset_eq_imp_distinct_iff)

lemma set_usernames_aggregateResults:
  "set (map username_r (aggregateResults lc repos mems)) = owner ` set repos"
proof -
  have "set (map username_r (aggregateResults lc repos mems)) = set (new_Set (map owner repos))"
    using mset_usernames_aggregateResults [of lc repos mems] by (metis set_mset_mset)
  then show ?thesis
    by (simp add: set_new_Set)
qed

lemma example_localeCompare_le: "example_localeCompare x y \<le> 0 \<longleftrightarrow> x \<le> y"
  by (auto simp: example_localeCompare_def)

lemma example_localeCompare_antisym:
  "\<forall>x y. (example_localeCompare x y < 0) = (0 < example_localeCompare y x)"
  by (auto simp: example_localeCompare_def)

lemma example_localeCompare_trans:
  "\<forall>x y z. example_localeCompare x y \<le> 0 \<longrightarrow> example_localeCompare y z \<le> 0 \<longrightarrow>
     example_localeCompare x z \<le> 0"
  by (auto simp: example_localeCompare_le)

text \<open>
  Claim C6. The result of \<open>aggregateResults\<close> has exactly one entry per distinct owner
  string of the repository list, compared as raw strings (so \<open>mallory\<close> and \<open>Mallory\<close>
  are two users). The repositories of an entry are the input repositories of that owner
  in their input order, and an entry whose owner has no entry in the membership map has
  an empty \<open>memberships\<close> list.
\<close>

theorem aggregateResults_one_result_per_owner:
  "distinct (map username_r (aggregateResults lc repos mems)) \<and>
   set (map username_r (aggregateResults lc repos mems)) = owner ` set repos \<and>
   length (aggregateResults lc repos mems) = card (owner ` set repos) \<and>
   (\<forall>r \<in> set (aggregateResults lc repos mems).
      repositories r = filter (\<lambda>x. owner x = username_r r) repos \<and>
      (map_get mems (username_r r) = None \<longrightarrow> memberships r = []))"
proof (intro conjI ballI impI)
  show d: "distinct (map username_r (aggregateResults lc repos mems))"
    by (rule distinct_usernames_aggregateResults)
  show s: "set (map username_r (aggregateResults lc repos mems)) = owner ` set repos"
    by (rule set_usernames_aggregateResults)
  have "length (map username_r (aggregateResults lc repos mems)) = card (owner ` set repos)"
    using d s by (metis distinct_card)
  then show "length (aggregateResults lc repos mems) = card (owner ` set repos)"
    by simp
next
  fix r
  assume r: "r \<in> set (aggregateResults lc repos mems)"
  from entry_aggregateResults [OF r]
  show "repositories r = filter (\<lambda>x. owner x = username_r r) repos"
    by simp
  assume "map_get mems (username_r r) = None"
  with entry_aggregateResults [OF r] show "memberships r = []"
    by (simp add: membershipList_def)
qed

theorem aggregateResults_one_result_per_owner_witness:
  "map username_r (aggregateResults example_localeCompare example_repositories_two_casings
      example_memberships) = [''alice'', ''mallory'', ''Mallory'', ''bob''] \<and>
   length (aggregateResults example_localeCompare example_repositories_two_casings
      example_memberships) = card (owner ` set example_repositories_two_casings) \<and>
   \<lparr>username_r = ''Mallory'',
    repositories = [\<lparr>owner = ''Mallory'', repo = ''v'', url = ''u5''\<rparr>],
    memberships = []\<rparr>
     \<in> set (aggregateResults example_localeCompare example_repositories_two_casings
          example_memberships) \<and>
   map_get example_memberships ''Mallory'' = None \<and>
   \<lparr>username_r = ''mallory'',
    repositories = [\<lparr>owner = ''mallory'', repo = ''x'', url = ''u1''\<rparr>,
                    \<lparr>owner = ''mallory'', repo = ''y'', url = ''u2''\<rparr>],
    memberships = [(''acme'', OutsideCollaborator), (''globex'', Member)]\<rparr>
     \<in> set (aggregateResults example_localeCompare example_repositories_two_casings
          example_memberships)"
proof -
  let ?out = "aggregateResults example_localeCompare example_repositories_two_casings
      example_memberships"
  note t = aggregateResults_one_result_per_owner [of example_localeCompare
      example_repositories_two_casings example_memberships]
  have u: "map username_r ?out = [''alice'', ''mallory'', ''Mallory'', ''bob'']"
    by code_simp
  from t have l: "length ?out = card (owner ` set example_repositories_two_casings)"
    by (rule conjunct1 [OF conjunct2 [OF conjunct2]])
  have m1: "\<lparr>username_r = ''Mallory'',
    repositories = [\<lparr>owner = ''Mallory'', repo = ''v'', url = ''u5''\<rparr>],
    memberships = []\<rparr> \<in> set ?out"
    by code_simp
  have n: "map_get example_memberships ''Mallory'' = None"
    by code_simp
  have m2: "\<lparr>username_r = ''mallory'',
    repositories = [\<lparr>owner = ''mallory'', repo = ''x'', url = ''u1''\<rparr>,
                    \<lparr>owner = ''mallory'', repo = ''y'', url = ''u2''\<rparr>],
    memberships = [(''acme'', OutsideCollaborator), (''globex'', Member)]\<rparr> \<in> set ?out"
    by code_simp
  from u l m1 n m2 show ?thesis
    by (intro conjI)
qed

text \<open>
  Claim C7. With a consistent comparator for the usernames (the sign of \<open>lc x y\<close> is
  the opposite of the sign of \<open>lc y x\<close>, and \<open>\<le> 0\<close> is transitive), the result is
  ordered by the number of memberships, larger first, and among equal numbers by
  username ascending under the comparator. In particular, when the owners are \<open>a\<close>
  with two memberships, \<open>b\<close> with none and \<open>c\<close> with two, and \<open>c\<close> compares before
  \<open>a\<close>, the result lists \<open>c\<close>, \<open>a\<close>, \<open>b\<close>.
\<close>

theorem aggregateResults_sorted:
  assumes antisym: "\<forall>x y. (lc x y < 0) = (0 < lc y x)"
    and trans: "\<forall>x y z. lc x y \<le> 0 \<longrightarrow> lc y z \<le> 0 \<longrightarrow> lc x z \<le> 0"
  shows "sorted_wrt
     (\<lambda>p q. length (memberships q) < length (memberships p) \<or>
        (length (memberships p) = length (memberships q) \<and>
         lc (username_r p) (username_r q) \<le> 0))
     (aggregateResults lc repos mems) \<and>
   (owner ` set repos = {a, b, c} \<and>
    length (membershipList mems a) = 2 \<and> length (membershipList mems b) = 0 \<and>
    length (membershipList mems c) = 2 \<and> lc c a < 0 \<longrightarrow>
    map username_r (aggregateResults lc repos mems) = [c, a, b])"
proof (intro conjI impI)
  have total: "compareResults lc p q \<le> 0 \<or> compareResults lc q p \<le> 0" for p q
  proof -
    have "lc x y \<le> 0 \<or> lc y x \<le> 0" for x y
      using antisym by (metis not_le order_less_imp_le)
    from this [of "username_r p" "username_r q"] show ?thesis
      unfolding compareResults_le by auto
  qed
  have tr: "compareResults lc p q \<le> 0 \<Longrightarrow> compareResults lc q r \<le> 0 \<Longrightarrow>
      compareResults lc p r \<le> 0" for p q r
  proof -
    have "lc x y \<le> 0 \<Longrightarrow> lc y z \<le> 0 \<Longrightarrow> lc x z \<le> 0" for x y z
      using trans by blast
    from this [of "username_r p" "username_r q" "username_r r"]
    show "compareResults lc p q \<le> 0 \<Longrightarrow> compareResults lc q r \<le> 0 \<Longrightarrow>
      compareResults lc p r \<le> 0"
      unfolding compareResults_le by auto
  qed
  have "sorted_wrt (\<lambda>p q. compareResults lc p q \<le> 0) (aggregateResults lc repos mems)"
    unfolding aggregateResults_def by (rule sorted_array_sort [OF total tr])
  then show sorted: "sorted_wrt
     (\<lambda>p q. length (memberships q) < length (memberships p) \<or>
        (length (memberships p) = length (memberships q) \<and>
         lc (username_r p) (username_r q) \<le> 0))
     (aggregateResults lc repos mems)"
    by (simp add: compareResults_le)
  assume h: "owner ` set repos = {a, b, c} \<and>
    length (membershipList mems a) = 2 \<and> length (membershipList mems b) = 0 \<and>
    length (membershipList mems c) = 2 \<and> lc c a < 0"
  let ?cn = "\<lambda>u. length (membershipList mems u)"
  from h antisym have ac: "0 < lc a c" by blast
  with h have ne: "a \<noteq> c" by auto
  have "sorted_wrt (\<lambda>p q. ?cn (username_r q) < ?cn (username_r p) \<or>
      (?cn (username_r p) = ?cn (username_r q) \<and> lc (username_r p) (username_r q) \<le> 0))
      (aggregateResults lc repos mems)"
    using sorted
    by (rule sorted_wrt_mono_rel [rotated]) (simp add: entry_aggregateResults)
  then have so: "sorted_wrt (\<lambda>p q. ?cn q < ?cn p \<or> (?cn p = ?cn q \<and> lc p q \<le> 0))
      (map username_r (aggregateResults lc repos mems))"
    by (simp add: sorted_wrt_map)
  from h have s: "set (map username_r (aggregateResults lc repos mems)) = {a, b, c}"
    by (simp only: set_usernames_aggregateResults)
  from h show "map username_r (aggregateResults lc repos mems) = [c, a, b]"
    by (intro three_sorted [where cn = ?cn and lc = lc,
          OF distinct_usernames_aggregateResults s so _ _ _ ac ne]) simp_all
qed

theorem aggregateResults_sorted_witness:
  "owner ` set example_repositories = {''mallory'', ''bob'', ''alice''} \<and>
   length (membershipList example_memberships ''mallory'') = 2 \<and>
   length (membershipList example_memberships ''bob'') = 0 \<and>
   length (membershipList example_memberships ''alice'') = 2 \<and>
   example_localeCompare ''alice'' ''mallory'' < 0 \<and>
   map username_r (aggregateResults example_localeCompare example_repositories
      example_memberships) = [''alice'', ''mallory'', ''bob'']"
proof -
  have h: "owner ` set example_repositories = {''mallory'', ''bob'', ''alice''} \<and>
   length (membershipList example_memberships ''mallory'') = 2 \<and>
   length (membershipList example_memberships ''bob'') = 0 \<and>
   length (membershipList example_memberships ''alice'') = 2 \<and>
   example_localeCompare ''alice'' ''mallory'' < 0"
    by code_simp
  from aggregateResults_sorted [OF example_localeCompare_antisym example_localeCompare_trans,
      where repos = example_repositories and mems = example_memberships
        and a = "''mallory''" and b = "''bob''" and c = "''alice''"] h
  have "map username_r (aggregateResults example_localeCompare example_repositories
      example_memberships) = [''alice'', ''mallory'', ''bob'']"
    by (rule mp [OF conjunct2])
  with h show ?thesis
    by simp
qed

section \<open>aggregateResults on the heap\<close>

subsection \<open>A map of references and the map of what they refer to\<close>

lemma map_set_new: "k \<notin> fst ` set m \<Longrightarrow> map_set k v m = m @ [(k, v)]"
  by (induction m) auto

lemma map_set_same: "map_of m k = Some a \<Longrightarrow> map_set k a m = m"
  by (induction m) (auto split: if_splits)

lemma map_of_deref: "map_of (map (apsnd g) m) k = map_option g (map_of m k)"
  by (induction m) auto

lemma deref_cong:
  "(\<And>a. a \<in> snd ` set m \<Longrightarrow> g a = g' a) \<Longrightarrow> map (apsnd g) m = map (apsnd g') m"
  by force

lemma map_set_deref:
  "distinct (map snd m) \<Longrightarrow> map_of m k = Some a \<Longrightarrow>
   map_set k v (map (apsnd g) m) = map (apsnd (g(a := v))) m"
proof (induction m)
  case Nil
  then show ?case by simp
next
  case (Cons e m)
  obtain k' a' where e: "e = (k', a')" by (cases e)
  show ?case
  proof (cases "k' = k")
    case True
    with Cons.prems e have a: "a' = a" and "a \<notin> snd ` set m" by auto
    then have "b \<in> snd ` set m \<Longrightarrow> (g(a := v)) b = g b" for b
      by (cases "b = a") simp_all
    then have "map (apsnd (g(a := v))) m = map (apsnd g) m"
      by (rule deref_cong)
    with True a e show ?thesis
      by simp
  next
    case False
    with Cons.prems e have m: "map_of m k = Some a" and d: "distinct (map snd m)"
      and "a' \<notin> snd ` set m" by auto
    moreover from m have "a \<in> snd ` set m"
      by (metis map_of_SomeD snd_conv image_eqI)
    ultimately have "a' \<noteq> a" by auto
    with False e Cons.IH [OF d m] show ?thesis
      by simp
  qed
qed

subsection \<open>One step of the grouping loop\<close>

lemma groupStep_h_step:
  assumes d: "distinct (map snd m)"
    and f: "\<forall>a \<in> snd ` set m. base \<le> a \<and> a < allocated st"
    and b: "base \<le> allocated st"
    and s: "groupStep_h r (m, st) = (m', st')"
  shows "distinct (map snd m') \<and>
         (\<forall>a \<in> snd ` set m'. base \<le> a \<and> a < allocated st') \<and>
         base \<le> allocated st' \<and>
         (\<forall>a < base. arrays st' a = arrays st a) \<and>
         maps st' = maps st \<and> defaultLocale st' = defaultLocale st \<and>
         map (apsnd (arrays st')) m' = groupStep r (map (apsnd (arrays st)) m)"
proof (cases "map_of m (owner r)")
  case None
  then have k: "owner r \<notin> fst ` set m"
    by (simp add: map_of_eq_None_iff)
  let ?a = "allocated st"
  from None s have m': "m' = m @ [(owner r, ?a)]"
    and st': "st' = st\<lparr>arrays := (arrays st)(?a := [r]), allocated := Suc ?a\<rparr>"
    by (auto simp: groupStep_h_def map_get_def map_set_new [OF k] Let_def)
  from f have fresh: "?a \<notin> snd ` set m" by auto
  then have "a \<in> snd ` set m \<Longrightarrow> ((arrays st)(?a := [r])) a = arrays st a" for a
    by (cases "a = ?a") simp_all
  then have same: "map (apsnd ((arrays st)(?a := [r]))) m = map (apsnd (arrays st)) m"
    by (rule deref_cong)
  from k have k': "owner r \<notin> fst ` set (map (apsnd (arrays st)) m)"
    by force
  have "map_of (map (apsnd (arrays st)) m) (owner r) = None"
    by (simp add: map_of_deref None)
  then have pure: "groupStep r (map (apsnd (arrays st)) m)
      = map (apsnd (arrays st)) m @ [(owner r, [r])]"
    by (simp add: groupStep_def map_get_def map_set_new [OF k'])
  show ?thesis
  proof (intro conjI)
    show "distinct (map snd m')" using d fresh m' by auto
    show "\<forall>a \<in> snd ` set m'. base \<le> a \<and> a < allocated st'"
      using f b m' st' by auto
    show "base \<le> allocated st'" using b st' by simp
    show "\<forall>a < base. arrays st' a = arrays st a" using b st' by simp
    show "maps st' = maps st" using st' by simp
    show "defaultLocale st' = defaultLocale st" using st' by simp
    show "map (apsnd (arrays st')) m' = groupStep r (map (apsnd (arrays st)) m)"
      using m' st' same pure by simp
  qed
next
  case (Some a)
  from Some s have m': "m' = m"
    and st': "st' = st\<lparr>arrays := (arrays st)(a := arrays st a @ [r])\<rparr>"
    by (auto simp: groupStep_h_def map_get_def map_set_same)
  from Some have a: "a \<in> snd ` set m"
    by (metis map_of_SomeD snd_conv image_eqI)
  have "map_of (map (apsnd (arrays st)) m) (owner r) = Some (arrays st a)"
    by (simp add: map_of_deref Some)
  then have pure: "groupStep r (map (apsnd (arrays st)) m)
      = map_set (owner r) (arrays st a @ [r]) (map (apsnd (arrays st)) m)"
    by (simp add: groupStep_def map_get_def)
  show ?thesis
  proof (intro conjI)
    show "distinct (map snd m')" using d m' by simp
    show "\<forall>a \<in> snd ` set m'. base \<le> a \<and> a < allocated st'"
      using f m' st' by simp
    show "base \<le> allocated st'" using b st' by simp
    show "\<forall>a < base. arrays st' a = arrays st a" using f a st' by auto
    show "maps st' = maps st" using st' by simp
    show "defaultLocale st' = defaultLocale st" using st' by simp
    show "map (apsnd (arrays st')) m' = groupStep r (map (apsnd (arrays st)) m)"
      by (simp add: m' st' pure map_set_deref [OF d Some])
  qed
qed

lemma fold_groupStep_h:
  assumes "distinct (map snd m)"
    and "\<forall>a \<in> snd ` set m. base \<le> a \<and> a < allocated st"
    and "base \<le> allocated st"
    and "fold groupStep_h rs (m, st) = (m', st')"
  shows "distinct (map snd m') \<and>
         (\<forall>a \<in> snd ` set m'. base \<le> a \<and> a < allocated st') \<and>
         base \<le> allocated st' \<and>
         (\<forall>a < base. arrays st' a = arrays st a) \<and>
         maps st' = maps st \<and> defaultLocale st' = defaultLocale st \<and>
         map (apsnd (arrays st')) m' = fold groupStep rs (map (apsnd (arrays st)) m)"
  using assms
proof (induction rs arbitrary: m st)
  case Nil
  then show ?case by simp
next
  case (Cons r rs)
  obtain m1 st1 where s1: "groupStep_h r (m, st) = (m1, st1)"
    by (cases "groupStep_h r (m, st)")
  note step = groupStep_h_step [OF Cons.prems(1-3) s1]
  from Cons.prems(4) s1 have rest: "fold groupStep_h rs (m1, st1) = (m', st')"
    by simp
  from step have p1: "distinct (map snd m1)"
    and p2: "\<forall>a \<in> snd ` set m1. base \<le> a \<and> a < allocated st1"
    and p3: "base \<le> allocated st1"
    by blast+
  note ih = Cons.IH [OF p1 p2 p3 rest]
  show ?case
  proof (intro conjI)
    show "distinct (map snd m')" using ih by blast
    show "\<forall>a \<in> snd ` set m'. base \<le> a \<and> a < allocated st'" using ih by blast
    show "base \<le> allocated st'" using ih by blast
    show "\<forall>a < base. arrays st' a = arrays st a" using ih step by simp
    show "maps st' = maps st" using ih step by simp
    show "defaultLocale st' = defaultLocale st" using ih step by simp
    have "map (apsnd (arrays st')) m' = fold groupStep rs (map (apsnd (arrays st1)) m1)"
      using ih by blast
    also have "map (apsnd (arrays st1)) m1 = groupStep r (map (apsnd (arrays st)) m)"
      using step by blast
    finally show "map (apsnd (arrays st')) m'
        = fold groupStep (r # rs) (map (apsnd (arrays st)) m)"
      by simp
  qed
qed

lemma groupLoop_fold:
  assumes "distinct (map snd m)"
    and "\<forall>a \<in> snd ` set m. base \<le> a \<and> a < allocated st"
    and "base \<le> allocated st"
    and "input < base"
  shows "groupLoop input i (m, st) = Some (fold groupStep_h (drop i (arrays st input)) (m, st))"
  using assms
proof (induction "length (arrays st input) - i" arbitrary: i m st)
  case 0
  then show ?case
    by (subst groupLoop.simps) simp
next
  case (Suc n)
  then have i: "i < length (arrays st input)" by simp
  obtain m1 st1 where s1: "groupStep_h (arrays st input ! i) (m, st) = (m1, st1)"
    by (cases "groupStep_h (arrays st input ! i) (m, st)")
  note step = groupStep_h_step [OF Suc.prems(1-3) s1]
  from step Suc.prems(4) have same: "arrays st1 input = arrays st input"
    by simp
  from step have p1: "distinct (map snd m1)"
    and p2: "\<forall>a \<in> snd ` set m1. base \<le> a \<and> a < allocated st1"
    and p3: "base \<le> allocated st1"
    by blast+
  from Suc.hyps(2) same have n: "n = length (arrays st1 input) - Suc i"
    by simp
  have "groupLoop input i (m, st) = groupLoop input (Suc i) (m1, st1)"
    using i s1 by (subst groupLoop.simps) simp
  also have "\<dots> = Some (fold groupStep_h (drop (Suc i) (arrays st1 input)) (m1, st1))"
    by (rule Suc.hyps(1) [OF n p1 p2 p3 Suc.prems(4)])
  also have "\<dots> = Some (fold groupStep_h (drop i (arrays st input)) (m, st))"
    using s1 same Cons_nth_drop_Suc [OF i, symmetric] by simp
  finally show ?case .
qed

subsection \<open>The whole call\<close>

lemma insort_by_map:
  assumes "\<And>x y. cmp' x y = cmp (f x) (f y)"
  shows "map f (insort_by cmp' x ys) = insort_by cmp (f x) (map f ys)"
  by (induction ys) (simp_all add: assms)

lemma array_sort_map:
  assumes "\<And>x y. cmp' x y = cmp (f x) (f y)"
  shows "map f (array_sort cmp' xs) = array_sort cmp (map f xs)"
  by (induction xs) (simp_all add: array_sort_def insort_by_map [of cmp' cmp f, OF assms])

lemma compareResults_h_value:
  "compareResults_h lc a b = compareResults lc (resultValue st a) (resultValue st b)"
  by (simp add: compareResults_h_def compareResults_def resultValue_def)

lemma buildResults_h_value:
  "map (resultValue st) (buildResults_h m mems) = buildResults (map (apsnd (arrays st)) m) mems"
  by (induction m) (auto simp: buildResults_h_def buildResults_def resultValue_def)

lemma set_buildResults_h: "repositories_h ` set (buildResults_h m mems) = snd ` set m"
  by (force simp: buildResults_h_def)

lemma aggregateResults_run_result:
  assumes input: "input < allocated st"
  shows "\<exists>out st'. aggregateResults_run collation st input mems = Some (out, st') \<and>
     map (resultValue st') out =
       aggregateResults (collation (defaultLocale st)) (arrays st input) (maps st mems) \<and>
     (\<forall>a < allocated st. arrays st' a = arrays st a) \<and>
     maps st' = maps st \<and> defaultLocale st' = defaultLocale st \<and>
     allocated st \<le> allocated st' \<and>
     (\<forall>r \<in> set out. repositories_h r < allocated st')"
proof -
  let ?lc = "collation (defaultLocale st)"
  obtain m' st' where f: "fold groupStep_h (arrays st input) ([], st) = (m', st')"
    by (cases "fold groupStep_h (arrays st input) ([], st)")
  have loop: "groupLoop input 0 ([], st) = Some (m', st')"
    using groupLoop_fold [of "[]" "allocated st" st input 0] input f by simp
  have facts: "distinct (map snd m') \<and>
         (\<forall>a \<in> snd ` set m'. allocated st \<le> a \<and> a < allocated st') \<and>
         allocated st \<le> allocated st' \<and>
         (\<forall>a < allocated st. arrays st' a = arrays st a) \<and>
         maps st' = maps st \<and> defaultLocale st' = defaultLocale st \<and>
         map (apsnd (arrays st')) m' = fold groupStep (arrays st input) (map (apsnd (arrays st)) [])"
    by (rule fold_groupStep_h [OF _ _ _ f]) simp_all
  let ?out = "array_sort (compareResults_h ?lc) (buildResults_h m' (maps st mems))"
  from loop facts have run: "aggregateResults_run collation st input mems = Some (?out, st')"
    by (simp add: aggregateResults_run_def)
  have "map (resultValue st') ?out
      = array_sort (compareResults ?lc) (map (resultValue st') (buildResults_h m' (maps st mems)))"
    by (rule array_sort_map) (rule compareResults_h_value)
  also have "\<dots> = array_sort (compareResults ?lc)
      (buildResults (map (apsnd (arrays st')) m') (maps st mems))"
    by (simp only: buildResults_h_value)
  also have "\<dots> = aggregateResults ?lc (arrays st input) (maps st mems)"
    using facts by (simp add: aggregateResults_def groupByOwner_def)
  finally have val: "map (resultValue st') ?out
      = aggregateResults ?lc (arrays st input) (maps st mems)" .
  have "set ?out = set (buildResults_h m' (maps st mems))"
    by (metis mset_array_sort set_mset_mset)
  then have "repositories_h ` set ?out = snd ` set m'"
    by (simp add: set_buildResults_h)
  with facts have addr: "\<forall>r \<in> set ?out. repositories_h r < allocated st'"
    by blast
  from run val facts addr show ?thesis
    by blast
qed

text \<open>
  Claim C9. Let the repository list be an object of the heap. A call of
  \<^verbatim>\<open>aggregateResults\<close> returns, and a second call on the same two arguments, in the
  state the first call left, returns too; the second sequence holds the same results in
  the same order as the first (the same usernames, repositories and memberships, in
  arrays of its own), and leaves the results of the first call as they were. This is so
  because the first call changes neither the repository list, nor the membership map,
  nor the locale: it writes only to arrays it has created. What a call returns is the
  value of \<open>aggregateResults\<close> on the contents of its arguments.
\<close>

theorem aggregateResults_run_twice:
  "input < allocated st \<Longrightarrow>
   \<exists>out1 st1 out2 st2.
     aggregateResults_run collation st input mems = Some (out1, st1) \<and>
     aggregateResults_run collation st1 input mems = Some (out2, st2) \<and>
     map (resultValue st2) out2 = map (resultValue st1) out1 \<and>
     map (resultValue st2) out1 = map (resultValue st1) out1 \<and>
     arrays st1 input = arrays st input \<and>
     maps st1 mems = maps st mems \<and>
     defaultLocale st1 = defaultLocale st \<and>
     map (resultValue st1) out1 =
       aggregateResults (collation (defaultLocale st)) (arrays st input) (maps st mems)"
proof -
  assume input: "input < allocated st"
  from aggregateResults_run_result [OF input, of collation mems]
  obtain out1 st1 where run1: "aggregateResults_run collation st input mems = Some (out1, st1)"
    and val1: "map (resultValue st1) out1 =
       aggregateResults (collation (defaultLocale st)) (arrays st input) (maps st mems)"
    and frame1: "\<forall>a < allocated st. arrays st1 a = arrays st a"
    and maps1: "maps st1 = maps st" and loc1: "defaultLocale st1 = defaultLocale st"
    and alloc1: "allocated st \<le> allocated st1"
    and addr1: "\<forall>r \<in> set out1. repositories_h r < allocated st1"
    by blast
  from input alloc1 have input1: "input < allocated st1"
    by simp
  from aggregateResults_run_result [OF input1, of collation mems]
  obtain out2 st2 where run2: "aggregateResults_run collation st1 input mems = Some (out2, st2)"
    and val2: "map (resultValue st2) out2 =
       aggregateResults (collation (defaultLocale st1)) (arrays st1 input) (maps st1 mems)"
    and frame2: "\<forall>a < allocated st1. arrays st2 a = arrays st1 a"
    by blast
  from frame1 input have same: "arrays st1 input = arrays st input"
    by simp
  from val1 val2 same maps1 loc1 have eq: "map (resultValue st2) out2 = map (resultValue st1) out1"
    by simp
  from addr1 frame2 have kept: "map (resultValue st2) out1 = map (resultValue st1) out1"
    by (simp add: resultValue_def)
  from maps1 have maps1': "maps st1 mems = maps st mems"
    by simp
  show ?thesis
    by (intro exI conjI) (fact run1 run2 eq kept same maps1' loc1 val1)+
qed

theorem aggregateResults_run_twice_witness:
  "0 < allocated example_runtime \<and>
   (\<exists>out1 st1 out2 st2.
      aggregateResults_run example_collation example_runtime 0 1 = Some (out1, st1) \<and>
      aggregateResults_run example_collation st1 0 1 = Some (out2, st2) \<and>
      map repositories_h out1 = [4, 2, 3] \<and>
      map repositories_h out2 = [7, 5, 6] \<and>
      map (resultValue st2) out2 = map (resultValue st1) out1 \<and>
      map username_r (map (resultValue st1) out1) = [''alice'', ''mallory'', ''bob''])"
proof -
  have a: "0 < allocated example_runtime"
    by (simp add: example_runtime_def)
  from aggregateResults_run_twice [OF a, of example_collation 1]
  obtain out1 st1 out2 st2
    where run1: "aggregateResults_run example_collation example_runtime 0 1 = Some (out1, st1)"
      and run2: "aggregateResults_run example_collation st1 0 1 = Some (out2, st2)"
      and eq: "map (resultValue st2) out2 = map (resultValue st1) out1"
      and val: "map (resultValue st1) out1 =
        aggregateResults (example_collation (defaultLocale example_runtime))
          (arrays example_runtime 0) (maps example_runtime 1)"
    by blast
  have e1: "map_option (\<lambda>p. map repositories_h (fst p))
      (aggregateResults_run example_collation example_runtime 0 1) = Some [4, 2, 3]"
    by code_simp
  have e2: "map_option (\<lambda>p. map repositories_h (fst p))
      (Option.bind (aggregateResults_run example_collation example_runtime 0 1)
         (\<lambda>p. aggregateResults_run example_collation (snd p) 0 1)) = Some [7, 5, 6]"
    by code_simp
  have e3: "map username_r (aggregateResults (example_collation (defaultLocale example_runtime))
          (arrays example_runtime 0) (maps example_runtime 1)) = [''alice'', ''mallory'', ''bob'']"
    by code_simp
  from e1 run1 have r1: "map repositories_h out1 = [4, 2, 3]"
    by simp
  from e2 run1 run2 have r2: "map repositories_h out2 = [7, 5, 6]"
    by simp
  from val e3 have u: "map username_r (map (resultValue st1) out1) = [''alice'', ''mallory'', ''bob'']"
    by simp
  show ?thesis
    by (intro exI conjI) (fact a run1 run2 r1 r2 eq u)+
qed

section \<open>CSV fields\<close>

lemma collapseQuotes_doubleQuotes: "collapseQuotes (doubleQuotes s) = s"
proof (induction s)
  case Nil
  show ?case by simp
next
  case (Cons c cs)
  show ?case
  proof (cases "c = dquote")
    case True
    then show ?thesis using Cons by simp
  next
    case False
    then show ?thesis using Cons by (cases "doubleQuotes cs") auto
  qed
qed

lemma length_doubleQuotes:
  "length (doubleQuotes s) = length s + length (filter (\<lambda>c. c = dquote) s)"
  by (induction s) auto

lemma unescapeCSV_quoted: "unescapeCSV (dquote # doubleQuotes s @ [dquote]) = s"
  by (simp add: unescapeCSV_def collapseQuotes_doubleQuotes)

lemma unescapeCSV_plain: "dquote \<notin> set s \<Longrightarrow> unescapeCSV s = s"
proof (cases s)
  case Nil
  then show ?thesis by (simp add: unescapeCSV_def)
next
  case (Cons c cs)
  assume "dquote \<notin> set s"
  with Cons have "hd s \<noteq> dquote" by auto
  then show ?thesis by (simp add: unescapeCSV_def)
qed

text \<open>
  Claim C10. A string with no comma, newline or double quote is returned unchanged by
  \<open>escapeCSV\<close>. Any other string is returned between two double quotes, every double
  quote of it written twice (the body is longer than the string by its number of
  quotes, and collapsing the doubled quotes gives the string back). In both cases
  reading the field back returns the string.
\<close>

theorem escapeCSV_round_trip:
  "(comma \<notin> set s \<and> newline \<notin> set s \<and> dquote \<notin> set s \<longrightarrow> escapeCSV s = s) \<and>
   (comma \<in> set s \<or> newline \<in> set s \<or> dquote \<in> set s \<longrightarrow>
      escapeCSV s = dquote # doubleQuotes s @ [dquote] \<and>
      collapseQuotes (doubleQuotes s) = s \<and>
      length (doubleQuotes s) = length s + length (filter (\<lambda>c. c = dquote) s)) \<and>
   unescapeCSV (escapeCSV s) = s"
proof (intro conjI impI)
  show "unescapeCSV (escapeCSV s) = s"
    by (simp add: escapeCSV_def unescapeCSV_quoted unescapeCSV_plain)
qed (simp_all add: escapeCSV_def collapseQuotes_doubleQuotes length_doubleQuotes)

theorem escapeCSV_round_trip_witness:
  "escapeCSV ''plain'' = ''plain'' \<and>
   escapeCSV [CHR ''a'', comma, dquote, CHR ''b'']
     = [dquote, CHR ''a'', comma, dquote, dquote, CHR ''b'', dquote] \<and>
   unescapeCSV [dquote, CHR ''a'', comma, dquote, dquote, CHR ''b'', dquote]
     = [CHR ''a'', comma, dquote, CHR ''b'']"
  using escapeCSV_round_trip [of "''plain''"]
        escapeCSV_round_trip [of "[CHR ''a'', comma, dquote, CHR ''b'']"]
  by (simp add: dquote_def comma_def newline_def unescapeCSV_def)

end
